theory Spec2Isabelle
  imports Main
begin

section \<open>Data model\<close>

text \<open>
  The \<^verbatim>\<open>Guess\<close> interface of \<^verbatim>\<open>types/game\<close>:
  \<^verbatim>\<open>turnIndex: number; digits: string[]; result?: {breached; injured}; timestamp: number;
  txHash?: string; pending?: boolean\<close>.
  Turn indices, counts and timestamps are non-negative integers in every place the
  program produces them (\<^verbatim>\<open>roomGuesses.length\<close>, \<^verbatim>\<open>Number(args.turnIndex)\<close> of an
  unsigned contract value, \<^verbatim>\<open>Date.now()\<close>), so they are \<^typ>\<open>nat\<close>.
  An optional field is an \<^typ>\<open>'a option\<close>, \<open>None\<close> when it reads \<^verbatim>\<open>undefined\<close>.
\<close>

record guess =
  turnIndex :: nat
  digits :: "string list"
  result :: "(nat \<times> nat) option"
  timestamp :: nat
  txHash :: "string option"
  pending :: "bool option"

text \<open>
  The event the \<^verbatim>\<open>ResultComputed\<close> handler receives:
  \<^verbatim>\<open>{roomId: string; turnIndex: number; submitter: string;
  signedResult?: {breaches: number; signals: number}}\<close>.
\<close>

record resultEvent =
  ev_roomId :: string
  ev_turnIndex :: nat
  ev_submitter :: string
  ev_signedResult :: "(nat \<times> nat) option"

text \<open>
  What the \<^verbatim>\<open>getProbe\<close> read inside the handler's \<^verbatim>\<open>try\<close> block gives: the
  decoded guess digits, or an exception (the request or the decoding throws).
\<close>

datatype probeRead = ProbeDigits "string list" | ProbeFailed

text \<open>The two pieces of React state the reconciler owns.\<close>

record session =
  currentRoomId :: "string option"
  roomGuesses :: "guess list"

section \<open>Reconciler operations\<close>

text \<open>
  \<^verbatim>\<open>event.signedResult ? {breached: event.signedResult.breaches,
  injured: event.signedResult.signals} : undefined\<close>
\<close>

definition eventResult :: "resultEvent \<Rightarrow> (nat \<times> nat) option" where
  "eventResult ev =
     (case ev_signedResult ev of
        Some (breaches, signals) \<Rightarrow> Some (breaches, signals)
      | None \<Rightarrow> None)"

text \<open>
  The state updater of \<^verbatim>\<open>handleResultComputed\<close>, with \<^verbatim>\<open>prev.find\<close> as
  \<^const>\<open>find\<close>. With the probe read successful the matching entries take the fetched
  digits; in the \<^verbatim>\<open>catch\<close> branch they keep their digits and a new entry gets
  \<^verbatim>\<open>digits: []\<close>. \<open>now\<close> is \<^verbatim>\<open>Date.now()\<close>.
\<close>

definition mergeResult :: "probeRead \<Rightarrow> nat \<Rightarrow> resultEvent \<Rightarrow> guess list \<Rightarrow> guess list" where
  "mergeResult probe now ev prev =
     (case probe of
        ProbeDigits guessDigits \<Rightarrow>
          (case find (\<lambda>g. turnIndex g = ev_turnIndex ev) prev of
             Some existingGuess \<Rightarrow>
               map (\<lambda>g. if turnIndex g = ev_turnIndex ev
                         then g\<lparr>digits := guessDigits, result := eventResult ev,
                                pending := Some False\<rparr>
                         else g) prev
           | None \<Rightarrow>
               prev @ [\<lparr>turnIndex = ev_turnIndex ev, digits = guessDigits,
                        result = eventResult ev, timestamp = now, txHash = None,
                        pending = Some False\<rparr>])
      | ProbeFailed \<Rightarrow>
          (case find (\<lambda>g. turnIndex g = ev_turnIndex ev) prev of
             Some existingGuess \<Rightarrow>
               map (\<lambda>g. if turnIndex g = ev_turnIndex ev
                         then g\<lparr>result := eventResult ev, pending := Some False\<rparr>
                         else g) prev
           | None \<Rightarrow>
               prev @ [\<lparr>turnIndex = ev_turnIndex ev, digits = [],
                        result = eventResult ev, timestamp = now, txHash = None,
                        pending = Some False\<rparr>]))"


text \<open>
  \<^verbatim>\<open>{ ...g, ...guess }\<close>: every key of \<open>guess\<close> overrides the one of \<open>g\<close>. The
  required keys are always present; an optional key that \<open>guess\<close> does not have
  (\<open>None\<close>) leaves the value of \<open>g\<close>. An argument that has an optional key set to
  \<^verbatim>\<open>undefined\<close> explicitly is outside the model: the submit handler, the only caller of
  \<^verbatim>\<open>addGuess\<close>, builds its argument without such keys.
\<close>

definition spreadOver :: "guess \<Rightarrow> guess \<Rightarrow> guess" where
  "spreadOver g new =
     \<lparr>turnIndex = turnIndex new, digits = digits new,
      result = (case result new of None \<Rightarrow> result g | Some r \<Rightarrow> Some r),
      timestamp = timestamp new,
      txHash = (case txHash new of None \<Rightarrow> txHash g | Some h \<Rightarrow> Some h),
      pending = (case pending new of None \<Rightarrow> pending g | Some p \<Rightarrow> Some p)\<rparr>"

definition addGuess :: "guess \<Rightarrow> guess list \<Rightarrow> guess list" where
  "addGuess new prev =
     (case find (\<lambda>g. turnIndex g = turnIndex new) prev of
        Some existing \<Rightarrow>
          map (\<lambda>g. if turnIndex g = turnIndex new then spreadOver g new else g) prev
      | None \<Rightarrow> prev @ [new])"

definition removeGuess :: "nat \<Rightarrow> guess list \<Rightarrow> guess list" where
  "removeGuess t prev = filter (\<lambda>g. turnIndex g \<noteq> t) prev"

text \<open>
  \<^verbatim>\<open>setCurrentRoom(roomId: string | null)\<close>: \<^verbatim>\<open>!roomId\<close> holds for \<^verbatim>\<open>null\<close> and for
  the empty string.
\<close>

definition setCurrentRoom :: "string option \<Rightarrow> session \<Rightarrow> session" where
  "setCurrentRoom roomId st =
     (if roomId = None \<or> roomId = Some []
      then st\<lparr>currentRoomId := roomId, roomGuesses := []\<rparr>
      else st\<lparr>currentRoomId := roomId\<rparr>)"

text \<open>
  The room effect of the game screen when its \<^verbatim>\<open>roomId\<close> changes: React runs the
  cleanup of the previous effect, \<^verbatim>\<open>setCurrentRoom(null)\<close>, and then the body,
  \<^verbatim>\<open>if (roomId) setCurrentRoom(roomId)\<close>.
\<close>

definition roomEffect :: "string option \<Rightarrow> session \<Rightarrow> session" where
  "roomEffect roomId st =
     (let cleaned = setCurrentRoom None st
      in if roomId = None \<or> roomId = Some [] then cleaned
         else setCurrentRoom roomId cleaned)"

subsection \<open>Sequences of operations\<close>

datatype reconcilerOp =
    AddGuess guess
  | MergeResult probeRead nat resultEvent
  | RemoveGuess nat

fun applyOp :: "reconcilerOp \<Rightarrow> guess list \<Rightarrow> guess list" where
  "applyOp (AddGuess new) gs = addGuess new gs"
| "applyOp (MergeResult probe now ev) gs = mergeResult probe now ev gs"
| "applyOp (RemoveGuess t) gs = removeGuess t gs"

fun applyOps :: "reconcilerOp list \<Rightarrow> guess list \<Rightarrow> guess list" where
  "applyOps [] gs = gs"
| "applyOps (x # xs) gs = applyOps xs (applyOp x gs)"

text \<open>
  Turn \<open>t\<close> is confirmed with result \<open>r\<close>: the list has an entry at \<open>t\<close>, and every
  entry at \<open>t\<close> carries \<open>r\<close> and \<^verbatim>\<open>pending: false\<close>.
\<close>

definition confirmedAt :: "nat \<Rightarrow> (nat \<times> nat) option \<Rightarrow> guess list \<Rightarrow> bool" where
  "confirmedAt t r gs =
     (list_ex (\<lambda>g. turnIndex g = t) gs \<and>
      list_all (\<lambda>g. turnIndex g \<noteq> t \<or> (result g = r \<and> pending g = Some False)) gs)"

text \<open>
  An operation that respects the confirmed entries of the list it is applied to: an add
  or a removal does not target a turn index that has a non-pending entry, and a result
  event for such a turn index carries the result that is stored.
\<close>

fun respectsConfirmed :: "reconcilerOp \<Rightarrow> guess list \<Rightarrow> bool" where
  "respectsConfirmed (AddGuess new) gs =
     list_all (\<lambda>g. turnIndex g \<noteq> turnIndex new \<or> pending g \<noteq> Some False) gs"
| "respectsConfirmed (MergeResult probe now ev) gs =
     list_all (\<lambda>g. turnIndex g \<noteq> ev_turnIndex ev \<or> pending g \<noteq> Some False
                    \<or> result g = eventResult ev) gs"
| "respectsConfirmed (RemoveGuess t) gs =
     list_all (\<lambda>g. turnIndex g \<noteq> t \<or> pending g \<noteq> Some False) gs"

fun respectful :: "reconcilerOp list \<Rightarrow> guess list \<Rightarrow> bool" where
  "respectful [] gs = True"
| "respectful (x # xs) gs = (respectsConfirmed x gs \<and> respectful xs (applyOp x gs))"

section \<open>The game screen\<close>

text \<open>
  \<^verbatim>\<open>currentTurnIndex = roomGuesses.length\<close>, and the derived values of the screen. The
  flag \<open>isPlayerCreator\<close> is
  \<^verbatim>\<open>roomData?.creator.toLowerCase() === subAccount?.address.toLowerCase()\<close>: it is
  \<open>True\<close> when the local player is the creator of the room and \<open>False\<close> when the local
  player is the opponent.
\<close>

definition currentTurnIndex :: "guess list \<Rightarrow> nat" where
  "currentTurnIndex guesses = length guesses"

definition isPlayerTurn :: "bool \<Rightarrow> guess list \<Rightarrow> bool" where
  "isPlayerTurn isPlayerCreator guesses =
     (if isPlayerCreator then currentTurnIndex guesses mod 2 = 0
      else currentTurnIndex guesses mod 2 = 1)"

definition playerGuesses :: "bool \<Rightarrow> guess list \<Rightarrow> guess list" where
  "playerGuesses isPlayerCreator guesses =
     filter (\<lambda>g. if isPlayerCreator then turnIndex g mod 2 = 0 else turnIndex g mod 2 = 1)
       guesses"

definition opponentGuesses :: "bool \<Rightarrow> guess list \<Rightarrow> guess list" where
  "opponentGuesses isPlayerCreator guesses =
     filter (\<lambda>g. if isPlayerCreator then turnIndex g mod 2 = 1 else turnIndex g mod 2 = 0)
       guesses"

text \<open>
  \<^verbatim>\<open>handleSubmit\<close>. The two validations and the missing room id return before anything
  is added. Otherwise the optimistic guess is added at \<open>currentTurnIndex\<close>, and when
  \<^verbatim>\<open>submitGuess\<close> throws the \<^verbatim>\<open>catch\<close> block calls
  \<^verbatim>\<open>removeGuess(currentTurnIndex)\<close>. The value is the guess list afterwards and the
  toast shown, when no other update of the guess list comes between the add and the
  rollback.
\<close>

datatype submitOutcome = SubmitReturns | SubmitThrows

datatype toast = IncompleteGuess | InvalidGuess | ExcavationLaunched | SubmissionFailed

definition optimisticGuess :: "nat \<Rightarrow> string list \<Rightarrow> nat \<Rightarrow> guess" where
  "optimisticGuess t selectedDigits now =
     \<lparr>turnIndex = t, digits = selectedDigits, result = None, timestamp = now,
      txHash = None, pending = Some True\<rparr>"

definition handleSubmit ::
  "string list \<Rightarrow> string option \<Rightarrow> nat \<Rightarrow> submitOutcome \<Rightarrow> guess list \<Rightarrow> guess list \<times> toast option" where
  "handleSubmit selectedDigits roomId now outcome guesses =
     (if list_ex (\<lambda>digit. digit = []) selectedDigits then (guesses, Some IncompleteGuess)
      else if length (remdups selectedDigits) \<noteq> 4 then (guesses, Some InvalidGuess)
      else if roomId = None \<or> roomId = Some [] then (guesses, None)
      else
        let t = currentTurnIndex guesses;
            added = addGuess (optimisticGuess t selectedDigits now) guesses
        in (case outcome of
              SubmitReturns \<Rightarrow> (added, Some ExcavationLaunched)
            | SubmitThrows \<Rightarrow> (removeGuess t added, Some SubmissionFailed)))"

section \<open>Waiting for a transaction receipt\<close>

text \<open>
  The wait loop that \<^verbatim>\<open>createRoom\<close>, \<^verbatim>\<open>joinRoom\<close> and \<^verbatim>\<open>submitGuess\<close> each contain,
  word for word:
  \<^verbatim>\<open>
  let receipt; let attempts = 0; const maxAttempts = 30;
  while (attempts < maxAttempts) {
    receipt = await provider.request({method: "eth_getTransactionReceipt", ...});
    if (receipt) break;
    await new Promise((resolve) => setTimeout(resolve, 1000));
    attempts++;
  }
  if (!receipt) throw new Error("Transaction receipt not found after timeout");
  \<close>
  The provider's answer to a request is a receipt, \<^verbatim>\<open>null\<close>, or a rejection, which
  leaves the loop as an exception of its own. \<open>reply i\<close> is the answer to request number
  \<open>i\<close>, counted from 0.
\<close>

datatype 'r rpcReply = Receipt 'r | NoReceipt | RequestRejected string

datatype txError = ReceiptNotFound | ProviderError string

definition maxAttempts :: nat where
  "maxAttempts = 30"

definition pollDelay :: nat where
  "pollDelay = 1000"

text \<open>
  The loop, from the state \<open>attempts\<close>. The value is the outcome (the receipt, or the
  error thrown), the number of requests sent, and the delays slept, in milliseconds, in
  order; \<open>sleeps\<close> collects the delays so far.
\<close>

function pollLoop ::
  "(nat \<Rightarrow> 'r rpcReply) \<Rightarrow> nat \<Rightarrow> nat list \<Rightarrow> (txError + 'r) \<times> nat \<times> nat list" where
  "pollLoop reply attempts sleeps =
     (if attempts < maxAttempts
      then (case reply attempts of
              Receipt r \<Rightarrow> (Inr r, attempts + 1, sleeps)
            | RequestRejected e \<Rightarrow> (Inl (ProviderError e), attempts + 1, sleeps)
            | NoReceipt \<Rightarrow> pollLoop reply (attempts + 1) (sleeps @ [pollDelay]))
      else (Inl ReceiptNotFound, attempts, sleeps))"
  by pat_completeness auto
termination
  by (relation "measure (\<lambda>(reply, attempts, sleeps). maxAttempts - attempts)") auto

definition waitForReceipt :: "(nat \<Rightarrow> 'r rpcReply) \<Rightarrow> (txError + 'r) \<times> nat \<times> nat list" where
  "waitForReceipt reply = pollLoop reply 0 []"

section \<open>The event poller\<close>

text \<open>
  \<^verbatim>\<open>VaultWarsEventHandler\<close>. Its fields are \<^verbatim>\<open>contract\<close> (here: whether it is set),
  \<^verbatim>\<open>handlers\<close> (here: the events that have a callback), \<^verbatim>\<open>isListening\<close> and
  \<^verbatim>\<open>pollInterval\<close> (the id of the interval timer, or \<^verbatim>\<open>null\<close>). The rest of the state
  is the JavaScript run time as the class sees it: the interval timers that are live, the
  next timer id, the \<^verbatim>\<open>checkForNewEvents\<close> calls suspended at
  \<^verbatim>\<open>await getBlockNumber()\<close> and at \<^verbatim>\<open>await queryFilter(...)\<close>, and the handler
  invocations made so far. Timer ids are truthy (positive numbers, or objects).
\<close>

datatype eventName =
    RoomCreated | RoomJoined | VaultSubmitted | ResultComputed
  | DecryptionRequested | WinnerDecrypted | GameFinished | RoomCancelled

datatype log = RawLog | EventLog string

record poller =
  contract :: bool
  handlers :: "eventName list"
  isListening :: bool
  pollInterval :: "nat option"
  intervals :: "nat list"
  nextId :: nat
  awaitingBlock :: nat
  awaitingLogs :: nat
  invoked :: "eventName list"

definition idle :: poller where
  "idle = \<lparr>contract = False, handlers = [], isListening = False, pollInterval = None,
           intervals = [], nextId = 1, awaitingBlock = 0, awaitingLogs = 0, invoked = []\<rparr>"

definition clearInterval :: "nat \<Rightarrow> poller \<Rightarrow> poller" where
  "clearInterval timerId st = st\<lparr>intervals := removeAll timerId (intervals st)\<rparr>"

text \<open>\<^verbatim>\<open>startPolling\<close>: \<^verbatim>\<open>setInterval\<close> registers a new timer, whose id is stored.\<close>

definition startPolling :: "poller \<Rightarrow> poller" where
  "startPolling st =
     (if \<not> contract st \<or> \<not> isListening st then st
      else st\<lparr>intervals := intervals st @ [nextId st], nextId := nextId st + 1,
              pollInterval := Some (nextId st)\<rparr>)"

definition startListening :: "poller \<Rightarrow> poller" where
  "startListening st =
     (if \<not> contract st \<or> isListening st then st
      else startPolling (st\<lparr>isListening := True\<rparr>))"

definition initialize :: "eventName list \<Rightarrow> poller \<Rightarrow> poller" where
  "initialize hs st = startListening (st\<lparr>contract := True, handlers := hs\<rparr>)"

definition stopListening :: "poller \<Rightarrow> poller" where
  "stopListening st =
     (if \<not> isListening st then st
      else (case pollInterval st of
              Some timerId \<Rightarrow> (clearInterval timerId st)\<lparr>pollInterval := None, isListening := False\<rparr>
            | None \<Rightarrow> st\<lparr>isListening := False\<rparr>))"

definition cleanup :: "poller \<Rightarrow> poller" where
  "cleanup st = (stopListening st)\<lparr>contract := False, handlers := []\<rparr>"

text \<open>
  The callback of the interval timer \<open>timerId\<close>, up to its first suspension: the flag is
  checked first; then \<^verbatim>\<open>checkForNewEvents\<close> returns at once without a contract, and
  otherwise suspends at \<^verbatim>\<open>await getBlockNumber()\<close>.
\<close>

definition timerCallback :: "nat \<Rightarrow> poller \<Rightarrow> poller" where
  "timerCallback timerId st =
     (if \<not> isListening st then clearInterval timerId st
      else if \<not> contract st then st
      else st\<lparr>awaitingBlock := awaitingBlock st + 1\<rparr>)"

text \<open>
  A suspended \<^verbatim>\<open>checkForNewEvents\<close> resumes when its network read settles. After the
  block number it calls \<^verbatim>\<open>this.contract.queryFilter\<close>, which throws into the
  \<^verbatim>\<open>catch\<close> when the contract has been reset to \<^verbatim>\<open>null\<close>, and suspends again
  otherwise. After the logs it runs \<^verbatim>\<open>processEvent\<close> on each of them. A rejected read
  ends the cycle in the \<^verbatim>\<open>catch\<close>.
\<close>

definition blockNumberArrives :: "poller \<Rightarrow> poller" where
  "blockNumberArrives st =
     (if awaitingBlock st = 0 then st
      else if contract st
        then st\<lparr>awaitingBlock := awaitingBlock st - 1, awaitingLogs := awaitingLogs st + 1\<rparr>
        else st\<lparr>awaitingBlock := awaitingBlock st - 1\<rparr>)"

definition blockNumberFails :: "poller \<Rightarrow> poller" where
  "blockNumberFails st = st\<lparr>awaitingBlock := awaitingBlock st - 1\<rparr>"

definition eventOfName :: "string \<Rightarrow> eventName option" where
  "eventOfName name =
     (if name = ''RoomCreated'' then Some RoomCreated
      else if name = ''RoomJoined'' then Some RoomJoined
      else if name = ''VaultSubmitted'' then Some VaultSubmitted
      else if name = ''ResultComputed'' then Some ResultComputed
      else if name = ''DecryptionRequested'' then Some DecryptionRequested
      else if name = ''WinnerDecrypted'' then Some WinnerDecrypted
      else if name = ''GameFinished'' then Some GameFinished
      else if name = ''RoomCancelled'' then Some RoomCancelled
      else None)"

text \<open>
  \<^verbatim>\<open>processEvent\<close>: a raw log or an empty event name returns at once; a known name
  calls the handler registered for it, if there is one (\<^verbatim>\<open>this.handlers.onX?.(data)\<close>).
\<close>

definition processEvent :: "log \<Rightarrow> poller \<Rightarrow> poller" where
  "processEvent l st =
     (case l of
        RawLog \<Rightarrow> st
      | EventLog name \<Rightarrow>
          (case eventOfName name of
             None \<Rightarrow> st
           | Some e \<Rightarrow> if e \<in> set (handlers st) then st\<lparr>invoked := invoked st @ [e]\<rparr> else st))"

definition logsArrive :: "log list \<Rightarrow> poller \<Rightarrow> poller" where
  "logsArrive allEvents st =
     (if awaitingLogs st = 0 then st
      else fold processEvent allEvents (st\<lparr>awaitingLogs := awaitingLogs st - 1\<rparr>))"

definition logsFail :: "poller \<Rightarrow> poller" where
  "logsFail st = st\<lparr>awaitingLogs := awaitingLogs st - 1\<rparr>"

text \<open>
  What can happen to the poller, one event-loop task at a time. \<open>TimerFires\<close> runs the
  callback of any timer id, a cleared one included (a stale callback).
\<close>

datatype pollerAction =
    Initialize "eventName list"
  | StopListening
  | Cleanup
  | TimerFires nat
  | BlockNumberArrives
  | BlockNumberFails
  | LogsArrive "log list"
  | LogsFail

fun pollerStep :: "pollerAction \<Rightarrow> poller \<Rightarrow> poller" where
  "pollerStep (Initialize hs) st = initialize hs st"
| "pollerStep StopListening st = stopListening st"
| "pollerStep Cleanup st = cleanup st"
| "pollerStep (TimerFires timerId) st = timerCallback timerId st"
| "pollerStep BlockNumberArrives st = blockNumberArrives st"
| "pollerStep BlockNumberFails st = blockNumberFails st"
| "pollerStep (LogsArrive allEvents) st = logsArrive allEvents st"
| "pollerStep LogsFail st = logsFail st"

fun pollerRun :: "pollerAction list \<Rightarrow> poller \<Rightarrow> poller" where
  "pollerRun [] st = st"
| "pollerRun (a # as) st = pollerRun as (pollerStep a st)"

fun isInitialize :: "pollerAction \<Rightarrow> bool" where
  "isInitialize (Initialize hs) = True"
| "isInitialize a = False"

definition inFlight :: "poller \<Rightarrow> nat" where
  "inFlight st = awaitingBlock st + awaitingLogs st"

section \<open>The invitation link\<close>















section \<open>Merging a result\<close>

lemma find_turn_None:
  "(find (\<lambda>g. turnIndex g = t) gs = None) = (\<forall>g \<in> set gs. turnIndex g \<noteq> t)"
  by (auto simp: find_None_iff)

lemma eventResult_eq: "eventResult ev = ev_signedResult ev"
  by (simp add: eventResult_def split: option.splits)

lemma mergeResult_present:
  assumes "\<exists>g \<in> set prev. turnIndex g = ev_turnIndex ev"
  shows "mergeResult probe now ev prev =
           map (\<lambda>g. if turnIndex g = ev_turnIndex ev
                     then (case probe of
                             ProbeDigits ds \<Rightarrow> g\<lparr>digits := ds, result := eventResult ev,
                                                  pending := Some False\<rparr>
                           | ProbeFailed \<Rightarrow> g\<lparr>result := eventResult ev, pending := Some False\<rparr>)
                     else g) prev"
proof -
  from assms have "find (\<lambda>g. turnIndex g = ev_turnIndex ev) prev \<noteq> None"
    by (simp add: find_turn_None)
  then show ?thesis
    by (cases probe) (auto simp: mergeResult_def)
qed

lemma mergeResult_absent:
  assumes "\<forall>g \<in> set prev. turnIndex g \<noteq> ev_turnIndex ev"
  shows "mergeResult probe now ev prev =
           prev @ [\<lparr>turnIndex = ev_turnIndex ev,
                     digits = (case probe of ProbeDigits ds \<Rightarrow> ds | ProbeFailed \<Rightarrow> []),
                     result = eventResult ev, timestamp = now, txHash = None,
                     pending = Some False\<rparr>]"
proof -
  from assms have "find (\<lambda>g. turnIndex g = ev_turnIndex ev) prev = None"
    by (simp add: find_turn_None)
  then show ?thesis
    by (cases probe) (simp_all add: mergeResult_def)
qed





text \<open>
  Claim C2. When the list has an entry at the event's turn index, the handler keeps the
  length of the list, gives every entry at that turn index the event's breaches and
  signals as its result and \<^verbatim>\<open>pending: false\<close>, and leaves the other entries as they
  are; when it has none, the handler appends one entry, at that turn index, not pending,
  with the event's result.
\<close>

theorem mergeResult_sets_or_appends:
  "((\<exists>g \<in> set prev. turnIndex g = ev_turnIndex ev) \<longrightarrow>
      length (mergeResult probe now ev prev) = length prev \<and>
      (\<forall>i < length prev.
         (turnIndex (prev ! i) = ev_turnIndex ev \<longrightarrow>
            turnIndex (mergeResult probe now ev prev ! i) = ev_turnIndex ev \<and>
            result (mergeResult probe now ev prev ! i) = ev_signedResult ev \<and>
            pending (mergeResult probe now ev prev ! i) = Some False \<and>
            timestamp (mergeResult probe now ev prev ! i) = timestamp (prev ! i) \<and>
            txHash (mergeResult probe now ev prev ! i) = txHash (prev ! i)) \<and>
         (turnIndex (prev ! i) \<noteq> ev_turnIndex ev \<longrightarrow>
            mergeResult probe now ev prev ! i = prev ! i)))
   \<and> ((\<forall>g \<in> set prev. turnIndex g \<noteq> ev_turnIndex ev) \<longrightarrow>
      (\<exists>g. mergeResult probe now ev prev = prev @ [g] \<and>
           turnIndex g = ev_turnIndex ev \<and>
           result g = ev_signedResult ev \<and>
           pending g = Some False))"
proof (intro conjI impI)
  assume ex: "\<exists>g \<in> set prev. turnIndex g = ev_turnIndex ev"
  show "length (mergeResult probe now ev prev) = length prev"
    by (simp add: mergeResult_present [OF ex])
  show "\<forall>i < length prev.
         (turnIndex (prev ! i) = ev_turnIndex ev \<longrightarrow>
            turnIndex (mergeResult probe now ev prev ! i) = ev_turnIndex ev \<and>
            result (mergeResult probe now ev prev ! i) = ev_signedResult ev \<and>
            pending (mergeResult probe now ev prev ! i) = Some False \<and>
            timestamp (mergeResult probe now ev prev ! i) = timestamp (prev ! i) \<and>
            txHash (mergeResult probe now ev prev ! i) = txHash (prev ! i)) \<and>
         (turnIndex (prev ! i) \<noteq> ev_turnIndex ev \<longrightarrow>
            mergeResult probe now ev prev ! i = prev ! i)"
    by (simp add: mergeResult_present [OF ex] eventResult_eq split: probeRead.splits)
next
  assume no: "\<forall>g \<in> set prev. turnIndex g \<noteq> ev_turnIndex ev"
  show "\<exists>g. mergeResult probe now ev prev = prev @ [g] \<and>
           turnIndex g = ev_turnIndex ev \<and>
           result g = ev_signedResult ev \<and>
           pending g = Some False"
    by (simp add: mergeResult_absent [OF no] eventResult_eq)
qed


theorem mergeResult_sets_or_appends_witness:
  "(\<exists>g \<in> set [optimisticGuess 0 [''5'', ''6'', ''7'', ''8''] 3]. turnIndex g = 0)
   \<and> result (mergeResult ProbeFailed 9
        \<lparr>ev_roomId = ''7'', ev_turnIndex = 0, ev_submitter = ''0xab'', ev_signedResult = Some (1, 2)\<rparr>
        [optimisticGuess 0 [''5'', ''6'', ''7'', ''8''] 3] ! 0) = Some (1, 2)
   \<and> pending (mergeResult ProbeFailed 9
        \<lparr>ev_roomId = ''7'', ev_turnIndex = 0, ev_submitter = ''0xab'', ev_signedResult = Some (1, 2)\<rparr>
        [optimisticGuess 0 [''5'', ''6'', ''7'', ''8''] 3] ! 0) = Some False
   \<and> (\<exists>g. mergeResult ProbeFailed 9
        \<lparr>ev_roomId = ''7'', ev_turnIndex = 1, ev_submitter = ''0xab'', ev_signedResult = Some (0, 4)\<rparr>
        [optimisticGuess 0 [''5'', ''6'', ''7'', ''8''] 3]
          = [optimisticGuess 0 [''5'', ''6'', ''7'', ''8''] 3] @ [g]
        \<and> turnIndex g = 1 \<and> result g = Some (0, 4) \<and> pending g = Some False)"
  using mergeResult_sets_or_appends
      [of "[optimisticGuess 0 [''5'', ''6'', ''7'', ''8''] 3]"
          "\<lparr>ev_roomId = ''7'', ev_turnIndex = 0, ev_submitter = ''0xab'', ev_signedResult = Some (1, 2)\<rparr>"
          ProbeFailed 9]
    mergeResult_sets_or_appends
      [of "[optimisticGuess 0 [''5'', ''6'', ''7'', ''8''] 3]"
          "\<lparr>ev_roomId = ''7'', ev_turnIndex = 1, ev_submitter = ''0xab'', ev_signedResult = Some (0, 4)\<rparr>"
          ProbeFailed 9]
  by (simp add: optimisticGuess_def)

section \<open>Confirmed guesses under sequences of operations\<close>

lemma confirmedAt_iff:
  "confirmedAt t r gs \<longleftrightarrow>
     (\<exists>g \<in> set gs. turnIndex g = t) \<and>
     (\<forall>g \<in> set gs. turnIndex g = t \<longrightarrow> result g = r \<and> pending g = Some False)"
  by (auto simp: confirmedAt_def list_ex_iff list_all_iff)

lemma confirmedAt_map:
  assumes turn: "\<And>g. turnIndex (f g) = turnIndex g"
    and keep: "\<And>g. g \<in> set gs \<Longrightarrow> turnIndex g = t \<Longrightarrow> result (f g) = r \<and> pending (f g) = Some False"
    and ex: "\<exists>g \<in> set gs. turnIndex g = t"
  shows "confirmedAt t r (map f gs)"
proof -
  from ex obtain g where "g \<in> set gs" "turnIndex g = t" by blast
  then have "f g \<in> set (map f gs)" "turnIndex (f g) = t" by (simp_all add: turn)
  then have "\<exists>h \<in> set (map f gs). turnIndex h = t" by blast
  moreover have "\<forall>h \<in> set (map f gs). turnIndex h = t \<longrightarrow> result h = r \<and> pending h = Some False"
    using keep by (auto simp: turn)
  ultimately show ?thesis by (simp only: confirmedAt_iff)
qed

lemma addGuess_keeps_confirmed:
  assumes resp: "respectsConfirmed (AddGuess new) gs" and conf: "confirmedAt t r gs"
  shows "confirmedAt t r (addGuess new gs)"
proof -
  from assms have neq: "turnIndex new \<noteq> t"
    by (auto simp: confirmedAt_iff list_all_iff)
  show ?thesis
  proof (cases "find (\<lambda>g. turnIndex g = turnIndex new) gs")
    case None
    then have "addGuess new gs = gs @ [new]" by (simp add: addGuess_def)
    with conf neq show ?thesis by (auto simp: confirmedAt_iff)
  next
    case (Some e)
    then have eq: "addGuess new gs =
        map (\<lambda>g. if turnIndex g = turnIndex new then spreadOver g new else g) gs"
      by (simp add: addGuess_def)
    show ?thesis
      unfolding eq
    proof (rule confirmedAt_map)
      show "turnIndex (if turnIndex g = turnIndex new then spreadOver g new else g) = turnIndex g" for g
        by (simp add: spreadOver_def)
      show "result (if turnIndex g = turnIndex new then spreadOver g new else g) = r \<and>
            pending (if turnIndex g = turnIndex new then spreadOver g new else g) = Some False"
        if "g \<in> set gs" "turnIndex g = t" for g
        using that conf neq by (auto simp: confirmedAt_iff)
      show "\<exists>g \<in> set gs. turnIndex g = t"
        using conf by (simp add: confirmedAt_iff)
    qed
  qed
qed

lemma mergeResult_keeps_confirmed:
  assumes resp: "respectsConfirmed (MergeResult probe now ev) gs" and conf: "confirmedAt t r gs"
  shows "confirmedAt t r (mergeResult probe now ev gs)"
proof (cases "\<exists>g \<in> set gs. turnIndex g = ev_turnIndex ev")
  case True
  show ?thesis
    unfolding mergeResult_present [OF True]
  proof (rule confirmedAt_map)
    show "turnIndex (if turnIndex g = ev_turnIndex ev
                 then (case probe of
                         ProbeDigits ds \<Rightarrow> g\<lparr>digits := ds, result := eventResult ev,
                                              pending := Some False\<rparr>
                       | ProbeFailed \<Rightarrow> g\<lparr>result := eventResult ev, pending := Some False\<rparr>)
                 else g) = turnIndex g" for g :: guess
      by (simp split: probeRead.splits)
    show "result (if turnIndex g = ev_turnIndex ev
                 then (case probe of
                         ProbeDigits ds \<Rightarrow> g\<lparr>digits := ds, result := eventResult ev,
                                              pending := Some False\<rparr>
                       | ProbeFailed \<Rightarrow> g\<lparr>result := eventResult ev, pending := Some False\<rparr>)
                 else g) = r \<and>
          pending (if turnIndex g = ev_turnIndex ev
                 then (case probe of
                         ProbeDigits ds \<Rightarrow> g\<lparr>digits := ds, result := eventResult ev,
                                              pending := Some False\<rparr>
                       | ProbeFailed \<Rightarrow> g\<lparr>result := eventResult ev, pending := Some False\<rparr>)
                 else g) = Some False"
      if "g \<in> set gs" "turnIndex g = t" for g :: guess
      using that conf resp by (auto simp: confirmedAt_iff list_all_iff split: probeRead.splits)
    show "\<exists>g \<in> set gs. turnIndex g = t"
      using conf by (simp add: confirmedAt_iff)
  qed
next
  case False
  then have no: "\<forall>g \<in> set gs. turnIndex g \<noteq> ev_turnIndex ev" by blast
  show ?thesis
    unfolding mergeResult_absent [OF no]
    using assms no by (auto simp: confirmedAt_iff)
qed

lemma removeGuess_keeps_confirmed:
  assumes "respectsConfirmed (RemoveGuess u) gs" and "confirmedAt t r gs"
  shows "confirmedAt t r (removeGuess u gs)"
  using assms by (auto simp: confirmedAt_iff list_all_iff removeGuess_def)

lemma applyOp_keeps_confirmed:
  "respectsConfirmed x gs \<Longrightarrow> confirmedAt t r gs \<Longrightarrow> confirmedAt t r (applyOp x gs)"
  by (cases x)
     (simp_all add: addGuess_keeps_confirmed mergeResult_keeps_confirmed
        removeGuess_keeps_confirmed)

text \<open>
  Claim C3, as amended. In a sequence of reconciler operations that respects the confirmed
  entries (no \<open>addGuess\<close> and no \<open>removeGuess\<close> at a turn index that has a non-pending
  entry at that moment, and every result event for such a turn index carrying the result
  already stored), a turn that is confirmed with a result stays in the list, keeps that
  result and stays non-pending.
\<close>

theorem confirmed_is_terminal:
  "respectful ops gs \<Longrightarrow> confirmedAt t r gs \<Longrightarrow> confirmedAt t r (applyOps ops gs)"
proof (induction ops arbitrary: gs)
  case Nil
  then show ?case by simp
next
  case (Cons x xs)
  from Cons.prems have "respectsConfirmed x gs" "respectful xs (applyOp x gs)" by simp_all
  moreover from this(1) Cons.prems(2) have "confirmedAt t r (applyOp x gs)"
    by (rule applyOp_keeps_confirmed)
  ultimately show ?case using Cons.IH by simp
qed


theorem confirmed_is_terminal_witness:
  "respectful
     [MergeResult ProbeFailed 9
        \<lparr>ev_roomId = ''7'', ev_turnIndex = 0, ev_submitter = ''0xab'', ev_signedResult = Some (1, 2)\<rparr>,
      AddGuess (optimisticGuess 1 [''0'', ''1'', ''2'', ''3''] 11),
      RemoveGuess 1]
     [\<lparr>turnIndex = 0, digits = [''5'', ''6'', ''7'', ''8''], result = Some (1, 2),
       timestamp = 3, txHash = None, pending = Some False\<rparr>]
   \<and> confirmedAt 0 (Some (1, 2))
     [\<lparr>turnIndex = 0, digits = [''5'', ''6'', ''7'', ''8''], result = Some (1, 2),
       timestamp = 3, txHash = None, pending = Some False\<rparr>]
   \<and> confirmedAt 0 (Some (1, 2))
     (applyOps
       [MergeResult ProbeFailed 9
          \<lparr>ev_roomId = ''7'', ev_turnIndex = 0, ev_submitter = ''0xab'', ev_signedResult = Some (1, 2)\<rparr>,
        AddGuess (optimisticGuess 1 [''0'', ''1'', ''2'', ''3''] 11),
        RemoveGuess 1]
       [\<lparr>turnIndex = 0, digits = [''5'', ''6'', ''7'', ''8''], result = Some (1, 2),
         timestamp = 3, txHash = None, pending = Some False\<rparr>])"
proof -
  let ?ops = "[MergeResult ProbeFailed 9
        \<lparr>ev_roomId = ''7'', ev_turnIndex = 0, ev_submitter = ''0xab'', ev_signedResult = Some (1, 2)\<rparr>,
      AddGuess (optimisticGuess 1 [''0'', ''1'', ''2'', ''3''] 11),
      RemoveGuess 1]"
  let ?gs = "[\<lparr>turnIndex = 0, digits = [''5'', ''6'', ''7'', ''8''], result = Some (1, 2),
       timestamp = 3, txHash = None, pending = Some False\<rparr>]"
  have r: "respectful ?ops ?gs"
    by (simp add: mergeResult_def addGuess_def optimisticGuess_def eventResult_def)
  have c: "confirmedAt 0 (Some (1, 2)) ?gs"
    by (simp add: confirmedAt_def)
  from r c confirmed_is_terminal [OF r c] show ?thesis by blast
qed

text \<open>
  The operations do not enforce this themselves. After a result for turn 0 is merged, an
  \<open>addGuess\<close> of an optimistic guess at turn 0 spreads its \<^verbatim>\<open>pending: true\<close> and its
  digits over the confirmed entry; and a second result event for turn 0 without
  \<^verbatim>\<open>signedResult\<close> replaces the stored result by \<^verbatim>\<open>undefined\<close>.
\<close>

theorem confirmed_reverts_counterexample:
  "applyOps
     [MergeResult (ProbeDigits [''5'', ''6'', ''7'', ''8'']) 9
        \<lparr>ev_roomId = ''7'', ev_turnIndex = 0, ev_submitter = ''0xab'', ev_signedResult = Some (1, 2)\<rparr>,
      AddGuess (optimisticGuess 0 [''0'', ''1'', ''2'', ''3''] 11)] []
     = [\<lparr>turnIndex = 0, digits = [''0'', ''1'', ''2'', ''3''], result = Some (1, 2),
         timestamp = 11, txHash = None, pending = Some True\<rparr>]
   \<and> applyOps
     [MergeResult (ProbeDigits [''5'', ''6'', ''7'', ''8'']) 9
        \<lparr>ev_roomId = ''7'', ev_turnIndex = 0, ev_submitter = ''0xab'', ev_signedResult = Some (1, 2)\<rparr>,
      MergeResult (ProbeDigits [''5'', ''6'', ''7'', ''8'']) 12
        \<lparr>ev_roomId = ''7'', ev_turnIndex = 0, ev_submitter = ''0xab'', ev_signedResult = None\<rparr>] []
     = [\<lparr>turnIndex = 0, digits = [''5'', ''6'', ''7'', ''8''], result = None,
         timestamp = 9, txHash = None, pending = Some False\<rparr>]"
  by (simp add: mergeResult_def addGuess_def optimisticGuess_def eventResult_def spreadOver_def)

section \<open>Switching the active room\<close>

text \<open>
  Claim C4, as amended. \<open>setCurrentRoom\<close> stores the room id it is given, and empties the
  guess list exactly when that id is \<^verbatim>\<open>null\<close> or the empty string; for any other id the
  guess list is kept. The room effect of the game screen, whose cleanup calls
  \<^verbatim>\<open>setCurrentRoom(null)\<close> before the new id is set, always leaves the list empty.
\<close>

theorem setCurrentRoom_clears_on_none:
  "currentRoomId (setCurrentRoom roomId st) = roomId
   \<and> roomGuesses (setCurrentRoom roomId st)
       = (if roomId = None \<or> roomId = Some [] then [] else roomGuesses st)
   \<and> roomGuesses (roomEffect roomId st) = []"
  by (simp add: setCurrentRoom_def roomEffect_def Let_def)

theorem setCurrentRoom_clears_on_none_witness:
  "roomGuesses (setCurrentRoom None
     \<lparr>currentRoomId = Some ''1'', roomGuesses = [optimisticGuess 0 [''5'', ''6'', ''7'', ''8''] 3]\<rparr>) = []
   \<and> roomGuesses (roomEffect (Some ''2'')
     \<lparr>currentRoomId = Some ''1'', roomGuesses = [optimisticGuess 0 [''5'', ''6'', ''7'', ''8''] 3]\<rparr>) = []"
  using setCurrentRoom_clears_on_none
    [of None "\<lparr>currentRoomId = Some ''1'', roomGuesses = [optimisticGuess 0 [''5'', ''6'', ''7'', ''8''] 3]\<rparr>"]
    setCurrentRoom_clears_on_none
    [of "Some ''2''" "\<lparr>currentRoomId = Some ''1'', roomGuesses = [optimisticGuess 0 [''5'', ''6'', ''7'', ''8''] 3]\<rparr>"]
  by simp

text \<open>
  A direct call with another room id keeps the guesses of the previous room.
\<close>

theorem setCurrentRoom_other_room_counterexample:
  "setCurrentRoom (Some ''2'')
     \<lparr>currentRoomId = Some ''1'', roomGuesses = [optimisticGuess 0 [''5'', ''6'', ''7'', ''8''] 3]\<rparr>
   = \<lparr>currentRoomId = Some ''2'', roomGuesses = [optimisticGuess 0 [''5'', ''6'', ''7'', ''8''] 3]\<rparr>
   \<and> roomGuesses (setCurrentRoom (Some ''2'')
     \<lparr>currentRoomId = Some ''1'', roomGuesses = [optimisticGuess 0 [''5'', ''6'', ''7'', ''8''] 3]\<rparr>) \<noteq> []"
  by (simp add: setCurrentRoom_def)

section \<open>Removing and adding again\<close>

text \<open>
  Claim C5. \<open>removeGuess\<close> at a turn index leaves no entry at that turn index, whatever the
  entries there held. An \<open>addGuess\<close> that follows at the same turn index appends the new
  guess as it is, so that it is the only entry at that turn index; the optimistic guess
  that the submit handler builds has no result and is pending.
\<close>

theorem removeGuess_then_addGuess_fresh:
  "list_all (\<lambda>g. turnIndex g \<noteq> turnIndex new) (removeGuess (turnIndex new) prev)
   \<and> addGuess new (removeGuess (turnIndex new) prev)
       = filter (\<lambda>g. turnIndex g \<noteq> turnIndex new) prev @ [new]
   \<and> filter (\<lambda>g. turnIndex g = turnIndex new) (addGuess new (removeGuess (turnIndex new) prev))
       = [new]
   \<and> turnIndex (optimisticGuess t selectedDigits now) = t
   \<and> result (optimisticGuess t selectedDigits now) = None
   \<and> pending (optimisticGuess t selectedDigits now) = Some True"
proof -
  have gone: "\<forall>g \<in> set (removeGuess (turnIndex new) prev). turnIndex g \<noteq> turnIndex new"
    by (simp add: removeGuess_def)
  then have "find (\<lambda>g. turnIndex g = turnIndex new) (removeGuess (turnIndex new) prev) = None"
    by (simp add: find_turn_None)
  then have add: "addGuess new (removeGuess (turnIndex new) prev)
       = removeGuess (turnIndex new) prev @ [new]"
    by (simp add: addGuess_def)
  have only: "filter (\<lambda>g. turnIndex g = turnIndex new) (removeGuess (turnIndex new) prev) = []"
    using gone by (simp add: filter_empty_conv)
  show ?thesis
    using gone add only
    by (simp add: list_all_iff) (simp add: removeGuess_def optimisticGuess_def)
qed

theorem removeGuess_then_addGuess_fresh_witness:
  "addGuess (optimisticGuess 0 [''0'', ''1'', ''2'', ''3''] 11)
     (removeGuess 0
        [\<lparr>turnIndex = 0, digits = [''5'', ''6'', ''7'', ''8''], result = Some (1, 2),
          timestamp = 3, txHash = Some ''0xfe'', pending = Some False\<rparr>])
   = [\<lparr>turnIndex = 0, digits = [''0'', ''1'', ''2'', ''3''], result = None,
        timestamp = 11, txHash = None, pending = Some True\<rparr>]"
  using removeGuess_then_addGuess_fresh
    [of "optimisticGuess 0 [''0'', ''1'', ''2'', ''3''] 11"
        "[\<lparr>turnIndex = 0, digits = [''5'', ''6'', ''7'', ''8''], result = Some (1, 2),
          timestamp = 3, txHash = Some ''0xfe'', pending = Some False\<rparr>]"]
  by (simp add: optimisticGuess_def)

section \<open>Turn parity\<close>

lemma mod2_one_odd: "(n::nat) mod 2 = 1 \<longleftrightarrow> odd n"
  by presburger

lemma mod2_zero_even: "(n::nat) mod 2 = 0 \<longleftrightarrow> even n"
  by presburger

text \<open>
  Claim C6. When the local player is the creator, the player's guesses are the guesses at
  even turn indices and the opponent's those at odd ones; when the local player is the
  opponent, it is the other way round: in both cases the creator has the even turn
  indices and the opponent the odd ones. The current turn index is the number of guesses,
  and it is the creator's turn exactly when that number is even, the opponent's exactly
  when it is odd.
\<close>

theorem turn_parity_partition:
  "playerGuesses True guesses = filter (\<lambda>g. even (turnIndex g)) guesses
   \<and> opponentGuesses True guesses = filter (\<lambda>g. odd (turnIndex g)) guesses
   \<and> opponentGuesses False guesses = filter (\<lambda>g. even (turnIndex g)) guesses
   \<and> playerGuesses False guesses = filter (\<lambda>g. odd (turnIndex g)) guesses
   \<and> currentTurnIndex guesses = length guesses
   \<and> (isPlayerTurn True guesses \<longleftrightarrow> even (length guesses))
   \<and> (isPlayerTurn False guesses \<longleftrightarrow> odd (length guesses))"
  by (simp add: playerGuesses_def opponentGuesses_def isPlayerTurn_def currentTurnIndex_def
        mod2_one_odd mod2_zero_even del: One_nat_def)

theorem turn_parity_partition_witness:
  "playerGuesses True
     [optimisticGuess 0 [''0'', ''1'', ''2'', ''3''] 11, optimisticGuess 1 [''5'', ''6'', ''7'', ''8''] 12,
      optimisticGuess 2 [''0'', ''1'', ''2'', ''4''] 13]
     = [optimisticGuess 0 [''0'', ''1'', ''2'', ''3''] 11, optimisticGuess 2 [''0'', ''1'', ''2'', ''4''] 13]
   \<and> opponentGuesses True
     [optimisticGuess 0 [''0'', ''1'', ''2'', ''3''] 11, optimisticGuess 1 [''5'', ''6'', ''7'', ''8''] 12,
      optimisticGuess 2 [''0'', ''1'', ''2'', ''4''] 13]
     = [optimisticGuess 1 [''5'', ''6'', ''7'', ''8''] 12]
   \<and> isPlayerTurn False
     [optimisticGuess 0 [''0'', ''1'', ''2'', ''3''] 11, optimisticGuess 1 [''5'', ''6'', ''7'', ''8''] 12,
      optimisticGuess 2 [''0'', ''1'', ''2'', ''4''] 13]"
  using turn_parity_partition
    [of "[optimisticGuess 0 [''0'', ''1'', ''2'', ''3''] 11, optimisticGuess 1 [''5'', ''6'', ''7'', ''8''] 12,
      optimisticGuess 2 [''0'', ''1'', ''2'', ''4''] 13]"]
  by (simp add: optimisticGuess_def)

section \<open>Rolling back a failed submission\<close>

lemma removeGuess_addGuess:
  "removeGuess (turnIndex new) (addGuess new prev) = removeGuess (turnIndex new) prev"
proof (cases "find (\<lambda>g. turnIndex g = turnIndex new) prev")
  case None
  then show ?thesis by (simp add: addGuess_def removeGuess_def)
next
  case (Some e)
  have "filter (\<lambda>g. turnIndex g \<noteq> turnIndex new)
          (map (\<lambda>g. if turnIndex g = turnIndex new then spreadOver g new else g) prev)
        = filter (\<lambda>g. turnIndex g \<noteq> turnIndex new) prev"
    by (induction prev) (simp_all add: spreadOver_def)
  with Some show ?thesis by (simp add: addGuess_def removeGuess_def)
qed

text \<open>
  Claim C7, as amended. When the submission of a valid guess throws, the guess list
  afterwards is the list before with every entry at the current turn index (the length of
  the list) removed: the optimistic entry is gone. If the list had no entry at that turn
  index, it is the list before the submission; in particular an empty list is empty again.
\<close>

theorem handleSubmit_rollback:
  assumes "\<not> list_ex (\<lambda>digit. digit = []) selectedDigits"
    and "length (remdups selectedDigits) = 4"
    and "roomId = Some r" and "r \<noteq> []"
  shows "fst (handleSubmit selectedDigits roomId now SubmitThrows guesses)
           = filter (\<lambda>g. turnIndex g \<noteq> length guesses) guesses
         \<and> list_all (\<lambda>g. turnIndex g \<noteq> length guesses)
             (fst (handleSubmit selectedDigits roomId now SubmitThrows guesses))
         \<and> (list_all (\<lambda>g. turnIndex g \<noteq> length guesses) guesses \<longrightarrow>
              fst (handleSubmit selectedDigits roomId now SubmitThrows guesses) = guesses)
         \<and> (guesses = [] \<longrightarrow>
              fst (handleSubmit selectedDigits roomId now SubmitThrows guesses) = [])"
proof -
  have t: "turnIndex (optimisticGuess (length guesses) selectedDigits now) = length guesses"
    by (simp add: optimisticGuess_def)
  have "fst (handleSubmit selectedDigits roomId now SubmitThrows guesses)
          = removeGuess (length guesses)
              (addGuess (optimisticGuess (length guesses) selectedDigits now) guesses)"
    using assms by (simp add: handleSubmit_def currentTurnIndex_def Let_def)
  also have "\<dots> = removeGuess (length guesses) guesses"
    using removeGuess_addGuess [of "optimisticGuess (length guesses) selectedDigits now" guesses]
    by (simp only: t)
  finally have eq: "fst (handleSubmit selectedDigits roomId now SubmitThrows guesses)
          = filter (\<lambda>g. turnIndex g \<noteq> length guesses) guesses"
    by (simp add: removeGuess_def)
  show ?thesis
    unfolding eq by (auto simp: list_all_iff filter_id_conv)
qed

theorem handleSubmit_rollback_witness:
  "\<not> list_ex (\<lambda>digit. digit = []) [''5'', ''6'', ''7'', ''8'']
   \<and> length (remdups [''5'', ''6'', ''7'', ''8'']) = 4
   \<and> fst (handleSubmit [''5'', ''6'', ''7'', ''8''] (Some ''7'') 11 SubmitThrows []) = []
   \<and> fst (handleSubmit [''5'', ''6'', ''7'', ''8''] (Some ''7'') 11 SubmitReturns [])
       = [\<lparr>turnIndex = 0, digits = [''5'', ''6'', ''7'', ''8''], result = None,
           timestamp = 11, txHash = None, pending = Some True\<rparr>]"
proof -
  have a: "\<not> list_ex (\<lambda>digit. digit = []) [''5'', ''6'', ''7'', ''8'']" by simp
  have b: "length (remdups [''5'', ''6'', ''7'', ''8'']) = 4" by simp
  have c: "fst (handleSubmit [''5'', ''6'', ''7'', ''8''] (Some ''7'') 11 SubmitReturns [])
       = [\<lparr>turnIndex = 0, digits = [''5'', ''6'', ''7'', ''8''], result = None,
           timestamp = 11, txHash = None, pending = Some True\<rparr>]"
    by (simp add: handleSubmit_def currentTurnIndex_def addGuess_def optimisticGuess_def)
  from handleSubmit_rollback [OF a b refl, of "''7''" 11 "[]"]
  have "fst (handleSubmit [''5'', ''6'', ''7'', ''8''] (Some ''7'') 11 SubmitThrows []) = []"
    by simp
  with a b c show ?thesis by blast
qed

text \<open>
  When the list already holds an entry at the turn index equal to its length (here a
  confirmed guess at turn 1 in a list of one), the rollback deletes that entry too.
\<close>

theorem handleSubmit_rollback_counterexample:
  "fst (handleSubmit [''5'', ''6'', ''7'', ''8''] (Some ''7'') 11 SubmitThrows
     [\<lparr>turnIndex = 1, digits = [''0'', ''1'', ''2'', ''3''], result = Some (1, 2),
       timestamp = 3, txHash = None, pending = Some False\<rparr>]) = []
   \<and> fst (handleSubmit [''5'', ''6'', ''7'', ''8''] (Some ''7'') 11 SubmitThrows
     [\<lparr>turnIndex = 1, digits = [''0'', ''1'', ''2'', ''3''], result = Some (1, 2),
       timestamp = 3, txHash = None, pending = Some False\<rparr>])
     \<noteq> [\<lparr>turnIndex = 1, digits = [''0'', ''1'', ''2'', ''3''], result = Some (1, 2),
       timestamp = 3, txHash = None, pending = Some False\<rparr>]"
  by (simp add: handleSubmit_def currentTurnIndex_def addGuess_def removeGuess_def
        optimisticGuess_def spreadOver_def)

section \<open>The receipt wait\<close>

declare pollLoop.simps [simp del]

lemma pollLoop_done:
  "\<not> a < maxAttempts \<Longrightarrow> pollLoop reply a s = (Inl ReceiptNotFound, a, s)"
  by (subst pollLoop.simps) simp

lemma pollLoop_found:
  "a < maxAttempts \<Longrightarrow> reply a = Receipt r \<Longrightarrow> pollLoop reply a s = (Inr r, a + 1, s)"
  by (subst pollLoop.simps) simp

lemma pollLoop_rejected:
  "a < maxAttempts \<Longrightarrow> reply a = RequestRejected e
     \<Longrightarrow> pollLoop reply a s = (Inl (ProviderError e), a + 1, s)"
  by (subst pollLoop.simps) simp

lemma pollLoop_next:
  "a < maxAttempts \<Longrightarrow> reply a = NoReceipt
     \<Longrightarrow> pollLoop reply a s = pollLoop reply (a + 1) (s @ [pollDelay])"
  by (subst pollLoop.simps) simp

lemma pollLoop_timeout:
  "fst (pollLoop reply a s) = Inl ReceiptNotFound
     \<longleftrightarrow> (\<forall>i. a \<le> i \<and> i < maxAttempts \<longrightarrow> reply i = NoReceipt)"
proof (induction reply a s rule: pollLoop.induct)
  case (1 reply attempts sleeps)
  show ?case
  proof (cases "attempts < maxAttempts")
    case False
    then show ?thesis by (auto simp: pollLoop_done)
  next
    case True
    show ?thesis
    proof (cases "reply attempts")
      case (Receipt r)
      with True show ?thesis
        by (auto simp: pollLoop_found)
    next
      case (RequestRejected e)
      with True show ?thesis
        by (auto simp: pollLoop_rejected)
    next
      case NoReceipt
      have split: "(\<forall>i. attempts \<le> i \<and> i < maxAttempts \<longrightarrow> reply i = NoReceipt)
          \<longleftrightarrow> (\<forall>i. attempts + 1 \<le> i \<and> i < maxAttempts \<longrightarrow> reply i = NoReceipt)"
        using NoReceipt by (metis Suc_eq_plus1 Suc_leI le_neq_implies_less add_leD1)
      from "1.IH" [OF True NoReceipt] show ?thesis
        by (simp only: pollLoop_next [of attempts reply sleeps, OF True NoReceipt] split)
    qed
  qed
qed

lemma pollLoop_receipt:
  "fst (pollLoop reply a s) = Inr r
     \<longleftrightarrow> (\<exists>k. a \<le> k \<and> k < maxAttempts \<and> reply k = Receipt r
              \<and> (\<forall>i. a \<le> i \<and> i < k \<longrightarrow> reply i = NoReceipt))"
proof (induction reply a s rule: pollLoop.induct)
  case (1 reply attempts sleeps)
  show ?case
  proof (cases "attempts < maxAttempts")
    case False
    then show ?thesis by (auto simp: pollLoop_done)
  next
    case True
    show ?thesis
    proof (cases "reply attempts")
      case (Receipt r')
      have "(\<exists>k. attempts \<le> k \<and> k < maxAttempts \<and> reply k = Receipt r
              \<and> (\<forall>i. attempts \<le> i \<and> i < k \<longrightarrow> reply i = NoReceipt)) \<longleftrightarrow> r' = r"
      proof
        assume "\<exists>k. attempts \<le> k \<and> k < maxAttempts \<and> reply k = Receipt r
              \<and> (\<forall>i. attempts \<le> i \<and> i < k \<longrightarrow> reply i = NoReceipt)"
        then obtain k where k: "attempts \<le> k" "reply k = Receipt r"
          "\<forall>i. attempts \<le> i \<and> i < k \<longrightarrow> reply i = NoReceipt" by blast
        have "k = attempts"
        proof (rule ccontr)
          assume "k \<noteq> attempts"
          with k(1) have "attempts < k" by simp
          with k(3) have "reply attempts = NoReceipt" by simp
          with Receipt show False by simp
        qed
        with k(2) Receipt show "r' = r" by simp
      next
        assume "r' = r"
        with Receipt True show "\<exists>k. attempts \<le> k \<and> k < maxAttempts \<and> reply k = Receipt r
              \<and> (\<forall>i. attempts \<le> i \<and> i < k \<longrightarrow> reply i = NoReceipt)"
          by (intro exI [of _ attempts]) auto
      qed
      with True Receipt show ?thesis
        by (simp add: pollLoop_found)
    next
      case (RequestRejected e)
      have "\<not> (\<exists>k. attempts \<le> k \<and> k < maxAttempts \<and> reply k = Receipt r
              \<and> (\<forall>i. attempts \<le> i \<and> i < k \<longrightarrow> reply i = NoReceipt))"
      proof
        assume "\<exists>k. attempts \<le> k \<and> k < maxAttempts \<and> reply k = Receipt r
              \<and> (\<forall>i. attempts \<le> i \<and> i < k \<longrightarrow> reply i = NoReceipt)"
        then obtain k where k: "attempts \<le> k" "reply k = Receipt r"
          "\<forall>i. attempts \<le> i \<and> i < k \<longrightarrow> reply i = NoReceipt" by blast
        show False
        proof (cases "k = attempts")
          case True
          with k(2) RequestRejected show False by simp
        next
          case False
          with k(1) have "attempts < k" by simp
          with k(3) have "reply attempts = NoReceipt" by simp
          with RequestRejected show False by simp
        qed
      qed
      with True RequestRejected show ?thesis
        by (simp add: pollLoop_rejected)
    next
      case NoReceipt
      have split: "(\<exists>k. attempts \<le> k \<and> k < maxAttempts \<and> reply k = Receipt r
              \<and> (\<forall>i. attempts \<le> i \<and> i < k \<longrightarrow> reply i = NoReceipt))
          \<longleftrightarrow> (\<exists>k. attempts + 1 \<le> k \<and> k < maxAttempts \<and> reply k = Receipt r
              \<and> (\<forall>i. attempts + 1 \<le> i \<and> i < k \<longrightarrow> reply i = NoReceipt))"
        (is "?L \<longleftrightarrow> ?R")
      proof
        assume ?L
        then obtain k where k: "attempts \<le> k" "k < maxAttempts" "reply k = Receipt r"
          "\<forall>i. attempts \<le> i \<and> i < k \<longrightarrow> reply i = NoReceipt" by blast
        from k(3) NoReceipt have "k \<noteq> attempts" by auto
        with k(1) have "attempts + 1 \<le> k" by simp
        with k show ?R by (intro exI [of _ k]) simp
      next
        assume ?R
        then obtain k where k: "attempts + 1 \<le> k" "k < maxAttempts" "reply k = Receipt r"
          "\<forall>i. attempts + 1 \<le> i \<and> i < k \<longrightarrow> reply i = NoReceipt" by blast
        have "reply i = NoReceipt" if "attempts \<le> i" "i < k" for i
        proof (cases "i = attempts")
          case True
          with NoReceipt show ?thesis by simp
        next
          case False
          with that k(4) show ?thesis by simp
        qed
        with k show ?L by (intro exI [of _ k]) simp
      qed
      from "1.IH" [OF True NoReceipt] show ?thesis
        by (simp only: pollLoop_next [of attempts reply sleeps, OF True NoReceipt] split)
    qed
  qed
qed

lemma pollLoop_trace:
  assumes "a \<le> maxAttempts"
  shows "\<exists>k. snd (snd (pollLoop reply a s)) = s @ replicate k pollDelay
            \<and> a + k \<le> maxAttempts
            \<and> fst (snd (pollLoop reply a s))
                = (if fst (pollLoop reply a s) = Inl ReceiptNotFound then a + k else a + k + 1)
            \<and> (fst (pollLoop reply a s) = Inl ReceiptNotFound \<longrightarrow> a + k = maxAttempts)
            \<and> (fst (pollLoop reply a s) \<noteq> Inl ReceiptNotFound \<longrightarrow> a + k < maxAttempts)"
  using assms
proof (induction reply a s rule: pollLoop.induct)
  case (1 reply attempts sleeps)
  show ?case
  proof (cases "attempts < maxAttempts")
    case False
    with "1.prems" show ?thesis
      by (intro exI [of _ 0]) (simp add: pollLoop_done)
  next
    case True
    show ?thesis
    proof (cases "reply attempts")
      case (Receipt r)
      with True show ?thesis
        by (intro exI [of _ 0]) (simp add: pollLoop_found)
    next
      case (RequestRejected e)
      with True show ?thesis
        by (intro exI [of _ 0]) (simp add: pollLoop_rejected)
    next
      case NoReceipt
      from True have "attempts + 1 \<le> maxAttempts" by simp
      from "1.IH" [OF True NoReceipt this] obtain k where
        k: "snd (snd (pollLoop reply (attempts + 1) (sleeps @ [pollDelay])))
              = (sleeps @ [pollDelay]) @ replicate k pollDelay"
           "attempts + 1 + k \<le> maxAttempts"
           "fst (snd (pollLoop reply (attempts + 1) (sleeps @ [pollDelay])))
                = (if fst (pollLoop reply (attempts + 1) (sleeps @ [pollDelay])) = Inl ReceiptNotFound
                   then attempts + 1 + k else attempts + 1 + k + 1)"
           "fst (pollLoop reply (attempts + 1) (sleeps @ [pollDelay])) = Inl ReceiptNotFound
              \<longrightarrow> attempts + 1 + k = maxAttempts"
           "fst (pollLoop reply (attempts + 1) (sleeps @ [pollDelay])) \<noteq> Inl ReceiptNotFound
              \<longrightarrow> attempts + 1 + k < maxAttempts"
        by blast
      have step: "pollLoop reply attempts sleeps = pollLoop reply (attempts + 1) (sleeps @ [pollDelay])"
        using True NoReceipt by (rule pollLoop_next)
      show ?thesis
        unfolding step using k
        by (intro exI [of _ "Suc k"]) (simp add: replicate_app_Cons_same)
    qed
  qed
qed


text \<open>
  Claim C8. The wait for a receipt sends at most 30 requests and sleeps 1000 ms after
  each request that found no receipt. It throws the receipt-not-found error exactly when
  none of the 30 requests finds a receipt (each answers \<^verbatim>\<open>null\<close>), and it yields a
  receipt exactly when one of the 30 requests returns it after only \<^verbatim>\<open>null\<close> answers.
\<close>

theorem waitForReceipt_polls_thirty_times:
  "(fst (waitForReceipt reply) = Inl ReceiptNotFound
      \<longleftrightarrow> (\<forall>i < maxAttempts. reply i = NoReceipt))
   \<and> (fst (waitForReceipt reply) = Inr r
      \<longleftrightarrow> (\<exists>k < maxAttempts. reply k = Receipt r \<and> (\<forall>i < k. reply i = NoReceipt)))
   \<and> fst (snd (waitForReceipt reply)) \<le> maxAttempts
   \<and> snd (snd (waitForReceipt reply))
        = replicate (length (snd (snd (waitForReceipt reply)))) pollDelay
   \<and> length (snd (snd (waitForReceipt reply)))
        = (if fst (waitForReceipt reply) = Inl ReceiptNotFound then maxAttempts
           else fst (snd (waitForReceipt reply)) - 1)
   \<and> maxAttempts = 30 \<and> pollDelay = 1000"
proof -
  have a: "fst (waitForReceipt reply) = Inl ReceiptNotFound
      \<longleftrightarrow> (\<forall>i < maxAttempts. reply i = NoReceipt)"
    using pollLoop_timeout [of reply 0 "[]"] by (simp add: waitForReceipt_def)
  have b: "fst (waitForReceipt reply) = Inr r
      \<longleftrightarrow> (\<exists>k < maxAttempts. reply k = Receipt r \<and> (\<forall>i < k. reply i = NoReceipt))"
    using pollLoop_receipt [of reply 0 "[]" r] by (simp add: waitForReceipt_def)
  from pollLoop_trace [of 0 reply "[]"] obtain k where
    k: "snd (snd (waitForReceipt reply)) = replicate k pollDelay"
       "k \<le> maxAttempts"
       "fst (snd (waitForReceipt reply))
          = (if fst (waitForReceipt reply) = Inl ReceiptNotFound then k else k + 1)"
       "fst (waitForReceipt reply) = Inl ReceiptNotFound \<longrightarrow> k = maxAttempts"
       "fst (waitForReceipt reply) \<noteq> Inl ReceiptNotFound \<longrightarrow> k < maxAttempts"
    by (auto simp: waitForReceipt_def)
  have c: "fst (snd (waitForReceipt reply)) \<le> maxAttempts"
    using k(2-5) by (cases "fst (waitForReceipt reply) = Inl ReceiptNotFound") simp_all
  have d: "snd (snd (waitForReceipt reply))
        = replicate (length (snd (snd (waitForReceipt reply)))) pollDelay"
    by (simp add: k(1))
  have e: "length (snd (snd (waitForReceipt reply)))
        = (if fst (waitForReceipt reply) = Inl ReceiptNotFound then maxAttempts
           else fst (snd (waitForReceipt reply)) - 1)"
    using k(3,4) by (simp add: k(1))
  from a b c d e show ?thesis
    by (simp only: maxAttempts_def pollDelay_def simp_thms)
qed

theorem waitForReceipt_polls_thirty_times_witness:
  "fst (waitForReceipt (\<lambda>i. NoReceipt :: nat rpcReply)) = Inl ReceiptNotFound
   \<and> length (snd (snd (waitForReceipt (\<lambda>i. NoReceipt :: nat rpcReply)))) = 30
   \<and> waitForReceipt (\<lambda>i. if i = 2 then Receipt (7 :: nat) else NoReceipt)
       = (Inr 7, 3, [1000, 1000])"
proof -
  have "fst (waitForReceipt (\<lambda>i. NoReceipt :: nat rpcReply)) = Inl ReceiptNotFound
        \<and> length (snd (snd (waitForReceipt (\<lambda>i. NoReceipt :: nat rpcReply)))) = 30"
    using waitForReceipt_polls_thirty_times [of "\<lambda>i. NoReceipt :: nat rpcReply" 0]
    by simp
  moreover have "waitForReceipt (\<lambda>i. if i = 2 then Receipt (7 :: nat) else NoReceipt)
       = (Inr 7, 3, [1000, 1000])"
    by (simp add: waitForReceipt_def pollLoop.simps maxAttempts_def pollDelay_def)
  ultimately show ?thesis by blast
qed

section \<open>Stopping the event poller\<close>

lemma fold_processEvent_same:
  "isListening (fold processEvent ls st) = isListening st
   \<and> awaitingBlock (fold processEvent ls st) = awaitingBlock st
   \<and> awaitingLogs (fold processEvent ls st) = awaitingLogs st
   \<and> contract (fold processEvent ls st) = contract st"
  by (induction ls arbitrary: st)
     (simp_all add: processEvent_def split: log.splits option.splits)

lemma stopped_step:
  assumes "\<not> isListening st" and "\<not> isInitialize a"
  shows "\<not> isListening (pollerStep a st)
         \<and> inFlight (pollerStep a st) \<le> inFlight st
         \<and> (inFlight st = 0 \<longrightarrow> invoked (pollerStep a st) = invoked st)"
proof (cases a)
  case (Initialize hs)
  with assms show ?thesis by simp
next
  case (LogsArrive ls)
  with assms show ?thesis
    by (simp add: logsArrive_def inFlight_def fold_processEvent_same)
next
  case BlockNumberArrives
  with assms show ?thesis
    by (simp add: blockNumberArrives_def inFlight_def)
qed (use assms in \<open>simp_all add: stopListening_def cleanup_def timerCallback_def clearInterval_def
      blockNumberFails_def logsFail_def inFlight_def\<close>)

lemma stopped_run:
  assumes "\<not> isListening st" and "list_all (\<lambda>a. \<not> isInitialize a) as"
  shows "\<not> isListening (pollerRun as st)
         \<and> inFlight (pollerRun as st) \<le> inFlight st
         \<and> (inFlight st = 0 \<longrightarrow> invoked (pollerRun as st) = invoked st)"
  using assms
proof (induction as arbitrary: st)
  case Nil
  then show ?case by simp
next
  case (Cons a as)
  from Cons.prems have a: "\<not> isInitialize a" and as: "list_all (\<lambda>a. \<not> isInitialize a) as"
    by simp_all
  from stopped_step [OF Cons.prems(1) a]
  have s: "\<not> isListening (pollerStep a st)" "inFlight (pollerStep a st) \<le> inFlight st"
    "inFlight st = 0 \<longrightarrow> invoked (pollerStep a st) = invoked st" by simp_all
  from Cons.IH [OF s(1) as]
  have r: "\<not> isListening (pollerRun as (pollerStep a st))"
    "inFlight (pollerRun as (pollerStep a st)) \<le> inFlight (pollerStep a st)"
    "inFlight (pollerStep a st) = 0 \<longrightarrow> invoked (pollerRun as (pollerStep a st)) = invoked (pollerStep a st)"
    by simp_all
  from s r show ?case by auto
qed

text \<open>
  Claim C9, as amended. \<open>stopListening\<close> leaves the poller not listening; if it was
  listening, its interval timer is cleared and forgotten. A timer callback that fires
  afterwards, stale or not, only clears its own timer. In every continuation without a
  new \<open>initialize\<close>, the poller stays stopped and no new poll cycle starts (the number of
  cycles in flight never grows); and if no cycle was in flight when \<open>stopListening\<close> ran,
  no handler is invoked any more.
\<close>

theorem stopListening_stops_polling:
  "\<not> isListening (stopListening st)
   \<and> (isListening st \<longrightarrow> pollInterval (stopListening st) = None
        \<and> (\<forall>timerId. pollInterval st = Some timerId \<longrightarrow> timerId \<notin> set (intervals (stopListening st))))
   \<and> timerCallback timerId (stopListening st) = clearInterval timerId (stopListening st)
   \<and> (list_all (\<lambda>a. \<not> isInitialize a) as \<longrightarrow>
        \<not> isListening (pollerRun as (stopListening st))
        \<and> inFlight (pollerRun as (stopListening st)) \<le> inFlight st
        \<and> (inFlight st = 0 \<longrightarrow> invoked (pollerRun as (stopListening st)) = invoked st))"
proof -
  have off: "\<not> isListening (stopListening st)"
    by (simp add: stopListening_def clearInterval_def split: option.splits)
  have same: "inFlight (stopListening st) = inFlight st" "invoked (stopListening st) = invoked st"
    by (simp_all add: stopListening_def clearInterval_def inFlight_def split: option.splits)
  have cleared: "isListening st \<longrightarrow> pollInterval (stopListening st) = None
        \<and> (\<forall>timerId. pollInterval st = Some timerId \<longrightarrow> timerId \<notin> set (intervals (stopListening st)))"
    by (simp add: stopListening_def clearInterval_def split: option.splits)
  have noop: "timerCallback timerId (stopListening st) = clearInterval timerId (stopListening st)"
    using off by (simp add: timerCallback_def)
  have run: "list_all (\<lambda>a. \<not> isInitialize a) as \<longrightarrow>
        \<not> isListening (pollerRun as (stopListening st))
        \<and> inFlight (pollerRun as (stopListening st)) \<le> inFlight st
        \<and> (inFlight st = 0 \<longrightarrow> invoked (pollerRun as (stopListening st)) = invoked st)"
    using stopped_run [OF off, of as] by (simp add: same)
  from off cleared noop run show ?thesis by blast
qed

theorem stopListening_stops_polling_witness:
  "invoked (pollerRun [TimerFires 1, BlockNumberArrives, LogsArrive [EventLog ''ResultComputed''],
                       TimerFires 1, Cleanup, TimerFires 1]
      (stopListening (pollerRun [Initialize [ResultComputed]] idle))) = []
   \<and> inFlight (pollerRun [TimerFires 1, BlockNumberArrives, LogsArrive [EventLog ''ResultComputed''],
                       TimerFires 1, Cleanup, TimerFires 1]
      (stopListening (pollerRun [Initialize [ResultComputed]] idle))) = 0
   \<and> intervals (stopListening (pollerRun [Initialize [ResultComputed]] idle)) = []"
proof -
  let ?st = "pollerRun [Initialize [ResultComputed]] idle"
  let ?as = "[TimerFires 1, BlockNumberArrives, LogsArrive [EventLog ''ResultComputed''],
              TimerFires 1, Cleanup, TimerFires 1]"
  have st: "initialize [ResultComputed] idle = \<lparr>contract = True, handlers = [ResultComputed], isListening = True,
                    pollInterval = Some 1, intervals = [1], nextId = 2, awaitingBlock = 0,
                    awaitingLogs = 0, invoked = []\<rparr>"
    by (simp add: idle_def initialize_def startListening_def startPolling_def)
  have a: "list_all (\<lambda>a. \<not> isInitialize a) ?as" by simp
  have b: "inFlight ?st = 0" "invoked ?st = []" "isListening ?st" "pollInterval ?st = Some 1"
    by (simp_all add: st inFlight_def)
  have c: "intervals (stopListening ?st) = []"
    by (simp add: st stopListening_def clearInterval_def)
  have "list_all (\<lambda>a. \<not> isInitialize a) ?as \<longrightarrow>
        \<not> isListening (pollerRun ?as (stopListening ?st))
        \<and> inFlight (pollerRun ?as (stopListening ?st)) \<le> inFlight ?st
        \<and> (inFlight ?st = 0 \<longrightarrow> invoked (pollerRun ?as (stopListening ?st)) = invoked ?st)"
    using stopListening_stops_polling [of ?st 1 ?as] by blast
  with a b(1) have "inFlight (pollerRun ?as (stopListening ?st)) \<le> 0"
    "invoked (pollerRun ?as (stopListening ?st)) = invoked ?st"
    by metis+
  with b(2) c show ?thesis
    by (simp only: le_zero_eq simp_thms)
qed

text \<open>
  A cycle that was suspended in its network reads when \<open>stopListening\<close> ran is not
  stopped: the flag is read only at the top of the callback, so the cycle goes on to
  query the logs and to call the handlers.
\<close>

theorem stopListening_in_flight_counterexample:
  "invoked (pollerRun [Initialize [ResultComputed], TimerFires 1, StopListening] idle) = []
   \<and> isListening (pollerRun [Initialize [ResultComputed], TimerFires 1, StopListening] idle) = False
   \<and> invoked (pollerRun [Initialize [ResultComputed], TimerFires 1, StopListening,
                          BlockNumberArrives, LogsArrive [EventLog ''ResultComputed'']] idle)
       = [ResultComputed]"
  by (simp add: idle_def initialize_def startListening_def startPolling_def timerCallback_def
        stopListening_def clearInterval_def blockNumberArrives_def logsArrive_def
        processEvent_def eventOfName_def)

section \<open>The invitation link round trip\<close>












end
